theory Spec2Isabelle
  imports Main "HOL-Library.AList" "HOL-Library.Sublist"
begin

section \<open>Nano Exhibition Manager: the store of \<open>App.jsx\<close>\<close>

text \<open>
  The program keeps one aggregate object \<open>data\<close> with four named collections
  (\<open>exhibitors\<close>, \<open>booths\<close>, \<open>events\<close>, \<open>attendees\<close>), each an array of flat records
  whose fields are strings. The embedding follows the JavaScript as it is written:

  \<^item> a JavaScript object is an association list of its own properties in enumeration
    order; a JavaScript object never has two properties of one name, so the objects of the
    program are the association lists with distinct keys;
  \<^item> reading a property that is absent gives \<open>undefined\<close>, here \<open>None\<close>;
  \<^item> a thrown exception is the \<open>Inl\<close> of a sum type;
  \<^item> a state updater passed to \<open>setData\<close> is the function from the old aggregate to the
    new one.

  Strings are lists of 8-bit code units (\<open>char\<close>), which covers ASCII and Latin-1 text.
\<close>

subsection \<open>Data model\<close>

type_synonym js_record = "(string \<times> string) list"

type_synonym collection = "js_record list"

type_synonym aggregate = "(string \<times> collection) list"

datatype js_error = TypeError | SyntaxError

definition collection_names :: "string list" where
  "collection_names = [''exhibitors'', ''booths'', ''events'', ''attendees'']"

text \<open>
  Property access \<open>obj[key]\<close> and \<open>obj.key\<close> among the own properties of an object:
  \<open>None\<close> is \<open>undefined\<close>. (\<open>js_get_chain\<close> below goes on to the prototype.)
\<close>

definition js_get :: "(string \<times> 'v) list \<Rightarrow> string \<Rightarrow> 'v option" where
  "js_get obj k = map_of obj k"

text \<open>
  \<open>{ ...a, ...b }\<close>: the properties of \<open>a\<close>, then each property of \<open>b\<close> in turn, which
  replaces the value of a property already there and is appended otherwise.
\<close>

definition spread :: "(string \<times> 'v) list \<Rightarrow> (string \<times> 'v) list \<Rightarrow> (string \<times> 'v) list" where
  "spread a b = fold (\<lambda>(k, v) acc. AList.update k v acc) b a"

definition sampleData :: aggregate where
  "sampleData =
    [(''exhibitors'',
        [[(''id'', ''ex-1''), (''name'', ''NanoTech Lab''), (''contact'', ''info@nanotech.example''),
          (''booth'', ''A1''), (''notes'', ''Graphene demos'')],
         [(''id'', ''ex-2''), (''name'', ''Micro Instruments''), (''contact'', ''sales@micro.example''),
          (''booth'', ''B2''), (''notes'', ''AFM & SEM'')]]),
     (''booths'',
        [[(''id'', ''b-A1''), (''code'', ''A1''), (''size'', ''3x3''), (''notes'', ''Near entrance'')],
         [(''id'', ''b-B2''), (''code'', ''B2''), (''size'', ''3x2''), (''notes'', ''Corner'')]]),
     (''events'',
        [[(''id'', ''ev-1''), (''title'', ''Opening Ceremony''), (''start'', ''2025-11-12T10:00''),
          (''end'', ''2025-11-12T10:30''), (''location'', ''Main Hall''), (''speaker'', ''Dr. A'')]]),
     (''attendees'',
        [[(''id'', ''at-1''), (''name'', ''Ali Reza''), (''company'', ''NanoTech Lab''),
          (''type'', ''Visitor''), (''email'', ''ali@example.com'')]])]"

text \<open>
  An aggregate is well formed when it is an object (distinct property names) that has each
  of the four collections.
\<close>

definition has_collections :: "aggregate \<Rightarrow> bool" where
  "has_collections d = (distinct (map fst d) \<and> list_all (\<lambda>c. js_get d c \<noteq> None) collection_names)"

subsection \<open>Generic CRUD helpers\<close>

text \<open>
  \<open>addItem\<close>: \<open>d => ({ ...d, [collection]: [...d[collection], item] })\<close>. Spreading
  \<open>undefined\<close> into an array literal throws a \<open>TypeError\<close>.
\<close>

definition addItem :: "string \<Rightarrow> js_record \<Rightarrow> aggregate \<Rightarrow> js_error + aggregate" where
  "addItem collection item d =
     (case js_get d collection of
        None \<Rightarrow> Inl TypeError
      | Some items \<Rightarrow> Inr (AList.update collection (items @ [item]) d))"

text \<open>
  \<open>updateItem\<close>: \<open>d => ({ ...d, [collection]: d[collection].map(it => it.id === id ?
  { ...it, ...patch } : it) })\<close>. Calling \<open>map\<close> on \<open>undefined\<close> throws a \<open>TypeError\<close>.
\<close>

definition updateItem :: "string \<Rightarrow> string \<Rightarrow> js_record \<Rightarrow> aggregate \<Rightarrow> js_error + aggregate" where
  "updateItem collection id' patch d =
     (case js_get d collection of
        None \<Rightarrow> Inl TypeError
      | Some items \<Rightarrow>
          Inr (AList.update collection
                 (map (\<lambda>it. if js_get it ''id'' = Some id' then spread it patch else it) items) d))"

text \<open>
  \<open>removeItem\<close>: \<open>d => ({ ...d, [collection]: d[collection].filter(it => it.id !== id) })\<close>.
\<close>

definition removeItem :: "string \<Rightarrow> string \<Rightarrow> aggregate \<Rightarrow> js_error + aggregate" where
  "removeItem collection id' d =
     (case js_get d collection of
        None \<Rightarrow> Inl TypeError
      | Some items \<Rightarrow>
          Inr (AList.update collection (filter (\<lambda>it. js_get it ''id'' \<noteq> Some id') items) d))"

text \<open>The ids of the records of a collection, in order; \<open>None\<close> for a record with no id.\<close>

definition ids_of :: "aggregate \<Rightarrow> string \<Rightarrow> string option list" where
  "ids_of d collection =
     (case js_get d collection of None \<Rightarrow> [] | Some items \<Rightarrow> map (\<lambda>it. js_get it ''id'') items)"

subsection \<open>Identifiers and record creation\<close>

text \<open>
  \<open>uid(prefix)\<close> is \<open>`${prefix}-${Math.random().toString(36).slice(2, 9)}`\<close>. The random
  draw is a parameter of the model: \<open>rnd\<close> is the text
  \<open>Math.random().toString(36).slice(2, 9)\<close>, at most seven base-36 digits. Every caller
  passes a prefix (\<open>ex\<close>, \<open>b\<close>, \<open>ev\<close>, \<open>at\<close>); the default \<open>"id"\<close> is the call
  \<open>uid ''id'' rnd\<close>.
\<close>

definition uid :: "string \<Rightarrow> string \<Rightarrow> string" where
  "uid prefix' rnd = prefix' @ ''-'' @ rnd"

text \<open>The submit handlers create the record \<open>{ id: uid(prefix), ...form }\<close>.\<close>

definition new_item :: "string \<Rightarrow> string \<Rightarrow> js_record \<Rightarrow> js_record" where
  "new_item prefix' rnd form = spread [(''id'', uid prefix' rnd)] form"

text \<open>
  Two registrations for which \<open>Math.random()\<close> gives the same draw: the sample data after
  the first attendee has been added, and after the second.
\<close>

definition first_registration :: aggregate where
  "first_registration =
     (case addItem ''attendees''
             (new_item ''at'' ''k3j9x2a''
                [(''name'', ''Jane Doe''), (''company'', ''Acme''), (''email'', ''jane@acme.com''),
                 (''type'', ''Visitor'')]) sampleData of
        Inr d \<Rightarrow> d
      | Inl e \<Rightarrow> sampleData)"

definition second_registration :: aggregate where
  "second_registration =
     (case addItem ''attendees''
             (new_item ''at'' ''k3j9x2a''
                [(''name'', ''John Roe''), (''company'', ''Initech''), (''email'', ''john@initech.com''),
                 (''type'', ''Speaker'')]) first_registration of
        Inr d \<Rightarrow> d
      | Inl e \<Rightarrow> first_registration)"

subsection \<open>Joining and searching strings\<close>

text \<open>\<open>Array.prototype.join(sep)\<close> on an array of strings.\<close>

fun js_join :: "string \<Rightarrow> string list \<Rightarrow> string" where
  "js_join sep [] = []"
| "js_join sep [x] = x"
| "js_join sep (x # y # ys) = x @ sep @ js_join sep (y # ys)"

text \<open>
  \<open>String.prototype.toLowerCase\<close> on 8-bit code units: the letters \<open>A\<close> to \<open>Z\<close> and the
  Latin-1 capitals \<open>0xC0\<close> to \<open>0xDE\<close> (but the multiplication sign \<open>0xD7\<close>) move up by 32.
\<close>

definition toLowerCase_char :: "char \<Rightarrow> char" where
  "toLowerCase_char c =
     (let n = (of_char c :: nat) in
      if (65 \<le> n \<and> n \<le> 90) \<or> (192 \<le> n \<and> n \<le> 222 \<and> n \<noteq> 215) then char_of (n + 32) else c)"

definition toLowerCase :: "string \<Rightarrow> string" where
  "toLowerCase s = map toLowerCase_char s"

text \<open>\<open>s.includes(q)\<close>: \<open>q\<close> occurs in \<open>s\<close> at some position.\<close>

fun js_includes :: "string \<Rightarrow> string \<Rightarrow> bool" where
  "js_includes [] q = (q = [])"
| "js_includes (c # cs) q = (take (length q) (c # cs) = q \<or> js_includes cs q)"

subsection \<open>Filtered views\<close>

text \<open>
  An element of an array that is \<open>undefined\<close> is joined as the empty string:
  \<open>[e.name, e.contact, e.booth, e.notes].join(" ")\<close>.
\<close>

definition joined_fields :: "string list \<Rightarrow> js_record \<Rightarrow> string" where
  "joined_fields fields r =
     js_join '' '' (map (\<lambda>f. case js_get r f of None \<Rightarrow> [] | Some v \<Rightarrow> v) fields)"

text \<open>
  \<open>data.exhibitors.filter((e) => [e.name, e.contact, e.booth, e.notes].join(" ")
  .toLowerCase().includes(q.toLowerCase()))\<close>, and the same for the other three views with
  their fields. Calling \<open>filter\<close> on \<open>undefined\<close> throws a \<open>TypeError\<close>.
\<close>

definition filteredExhibitors :: "aggregate \<Rightarrow> string \<Rightarrow> js_error + collection" where
  "filteredExhibitors d q =
     (case js_get d ''exhibitors'' of
        None \<Rightarrow> Inl TypeError
      | Some items \<Rightarrow>
          Inr (filter (\<lambda>e. js_includes (toLowerCase (joined_fields [''name'', ''contact'', ''booth'', ''notes''] e))
                              (toLowerCase q)) items))"

definition filteredBooths :: "aggregate \<Rightarrow> string \<Rightarrow> js_error + collection" where
  "filteredBooths d q =
     (case js_get d ''booths'' of
        None \<Rightarrow> Inl TypeError
      | Some items \<Rightarrow>
          Inr (filter (\<lambda>b. js_includes (toLowerCase (joined_fields [''code'', ''size'', ''notes''] b))
                              (toLowerCase q)) items))"

definition filteredEvents :: "aggregate \<Rightarrow> string \<Rightarrow> js_error + collection" where
  "filteredEvents d q =
     (case js_get d ''events'' of
        None \<Rightarrow> Inl TypeError
      | Some items \<Rightarrow>
          Inr (filter (\<lambda>ev. js_includes (toLowerCase (joined_fields [''title'', ''location'', ''speaker''] ev))
                               (toLowerCase q)) items))"

definition filteredAttendees :: "aggregate \<Rightarrow> string \<Rightarrow> js_error + collection" where
  "filteredAttendees d q =
     (case js_get d ''attendees'' of
        None \<Rightarrow> Inl TypeError
      | Some items \<Rightarrow>
          Inr (filter (\<lambda>a. js_includes (toLowerCase (joined_fields [''name'', ''company'', ''email'', ''type''] a))
                              (toLowerCase q)) items))"

text \<open>The four views by collection name, and the fields each one searches.\<close>

definition filtered :: "string \<Rightarrow> aggregate \<Rightarrow> string \<Rightarrow> js_error + collection" where
  "filtered collection d q =
     (if collection = ''exhibitors'' then filteredExhibitors d q
      else if collection = ''booths'' then filteredBooths d q
      else if collection = ''events'' then filteredEvents d q
      else if collection = ''attendees'' then filteredAttendees d q
      else Inl TypeError)"

definition searched_fields :: "string \<Rightarrow> string list" where
  "searched_fields collection =
     (if collection = ''exhibitors'' then [''name'', ''contact'', ''booth'', ''notes'']
      else if collection = ''booths'' then [''code'', ''size'', ''notes'']
      else if collection = ''events'' then [''title'', ''location'', ''speaker'']
      else if collection = ''attendees'' then [''name'', ''company'', ''email'', ''type'']
      else [])"

text \<open>
  The match as the specification words it: the query is a substring of the text when the
  case of letters is ignored. \<open>sublist q s\<close> says that \<open>s = pre @ q @ suf\<close> for some \<open>pre\<close>
  and \<open>suf\<close>. \<open>field_texts\<close> are the searched fields of a record, an absent one as the empty
  text.
\<close>

definition ci_substring :: "string \<Rightarrow> string \<Rightarrow> bool" where
  "ci_substring q s = sublist (toLowerCase q) (toLowerCase s)"

definition field_texts :: "string list \<Rightarrow> js_record \<Rightarrow> string list" where
  "field_texts fields r = map (\<lambda>f. case js_get r f of None \<Rightarrow> [] | Some v \<Rightarrow> v) fields"

subsection \<open>CSV export\<close>


















subsection \<open>JSON texts\<close>

text \<open>
  \<open>JSON.stringify\<close> and \<open>JSON.parse\<close> are built-ins of the platform (ECMA-262, 25.5).
  They are modelled on the values an aggregate is made of: strings, arrays and objects.
\<close>

datatype json = JStr string | JArr "json list" | JObj "(string \<times> json) list"

definition json_of_record :: "js_record \<Rightarrow> json" where
  "json_of_record r = JObj (map (\<lambda>(k, v). (k, JStr v)) r)"

definition json_of_collection :: "collection \<Rightarrow> json" where
  "json_of_collection items = JArr (map json_of_record items)"

definition json_of_aggregate :: "aggregate \<Rightarrow> json" where
  "json_of_aggregate d = JObj (map (\<lambda>(k, items). (k, json_of_collection items)) d)"

text \<open>
  \<open>QuoteJSONString\<close>: the double quote \<open>0x22\<close> and the backslash \<open>0x5C\<close> are escaped with a
  backslash, the control characters below \<open>0x20\<close> as \<open>\b \t \n \f \r\<close> or
  \<open>\u00XX\<close> in lower-case hexadecimal; every other code unit stands for itself.
\<close>

definition hex_digit :: "nat \<Rightarrow> char" where
  "hex_digit n = (if n < 10 then char_of (48 + n) else char_of (87 + n))"

definition quote_char :: "char \<Rightarrow> string" where
  "quote_char c =
     (if c = CHR 0x22 then [CHR 0x5C, CHR 0x22]
      else if c = CHR 0x5C then [CHR 0x5C, CHR 0x5C]
      else if c = CHR 0x08 then [CHR 0x5C, CHR ''b'']
      else if c = CHR 0x09 then [CHR 0x5C, CHR ''t'']
      else if c = CHR 0x0A then [CHR 0x5C, CHR ''n'']
      else if c = CHR 0x0C then [CHR 0x5C, CHR ''f'']
      else if c = CHR 0x0D then [CHR 0x5C, CHR ''r'']
      else if (of_char c :: nat) < 32 then
        [CHR 0x5C, CHR ''u'', CHR ''0'', CHR ''0'',
         hex_digit ((of_char c :: nat) div 16), hex_digit ((of_char c :: nat) mod 16)]
      else [c])"

definition quote_json :: "string \<Rightarrow> string" where
  "quote_json s = CHR 0x22 # concat (map quote_char s) @ [CHR 0x22]"

text \<open>\<open>JSON.stringify(value)\<close> with no indentation: no white space is written.\<close>

fun JSON_stringify :: "json \<Rightarrow> string" where
  "JSON_stringify (JStr s) = quote_json s"
| "JSON_stringify (JArr vs) = ''['' @ js_join '','' (map JSON_stringify vs) @ '']''"
| "JSON_stringify (JObj ps) =
     ''{'' @ js_join '','' (map (\<lambda>(k, v). quote_json k @ '':'' @ JSON_stringify v) ps) @ ''}''"

text \<open>
  The reader of JSON texts. White space (space, tab, line feed, carriage return) may stand
  around every token. Inside a string a backslash starts an escape
  (\<open>\" \\ \/ \b \f \n \r \t\<close> or \<open>\u\<close> and four hexadecimal digits), and a raw
  control character below \<open>0x20\<close> is an error. An escape \<open>\uXXXX\<close> above \<open>0x00FF\<close> denotes a
  code unit that is not a \<open>char\<close>, and number and literal tokens denote values that are
  not a \<open>json\<close>: the reader rejects them.
\<close>

definition is_ws :: "char \<Rightarrow> bool" where
  "is_ws c = (c = CHR 0x20 \<or> c = CHR 0x09 \<or> c = CHR 0x0A \<or> c = CHR 0x0D)"

definition skip_ws :: "string \<Rightarrow> string" where
  "skip_ws cs = dropWhile is_ws cs"

definition hex_val :: "char \<Rightarrow> nat option" where
  "hex_val c =
     (let n = (of_char c :: nat) in
      if 48 \<le> n \<and> n \<le> 57 then Some (n - 48)
      else if 97 \<le> n \<and> n \<le> 102 then Some (n - 87)
      else if 65 \<le> n \<and> n \<le> 70 then Some (n - 55)
      else None)"

definition hex4 :: "char \<Rightarrow> char \<Rightarrow> char \<Rightarrow> char \<Rightarrow> nat option" where
  "hex4 h1 h2 h3 h4 =
     (case (hex_val h1, hex_val h2, hex_val h3, hex_val h4) of
        (Some a, Some b, Some c, Some d) \<Rightarrow> Some (((a * 16 + b) * 16 + c) * 16 + d)
      | _ \<Rightarrow> None)"

definition unescape :: "char \<Rightarrow> char option" where
  "unescape e =
     (if e = CHR 0x22 then Some (CHR 0x22)
      else if e = CHR 0x5C then Some (CHR 0x5C)
      else if e = CHR ''/'' then Some (CHR ''/'')
      else if e = CHR ''b'' then Some (CHR 0x08)
      else if e = CHR ''f'' then Some (CHR 0x0C)
      else if e = CHR ''n'' then Some (CHR 0x0A)
      else if e = CHR ''r'' then Some (CHR 0x0D)
      else if e = CHR ''t'' then Some (CHR 0x09)
      else None)"

definition cons_result :: "char \<Rightarrow> (string \<times> string) option \<Rightarrow> (string \<times> string) option" where
  "cons_result c res = (case res of None \<Rightarrow> None | Some (s, rest) \<Rightarrow> Some (c # s, rest))"

text \<open>
  \<open>parse_chars\<close> reads the characters of a string after its opening quote, up to the
  closing quote, and returns the string and the text that follows.
\<close>

fun parse_chars :: "string \<Rightarrow> (string \<times> string) option" where
  "parse_chars [] = None"
| "parse_chars (c # cs) =
     (if c = CHR 0x22 then Some ([], cs)
      else if c = CHR 0x5C then
        (case cs of
           [] \<Rightarrow> None
         | e # r \<Rightarrow>
             if e = CHR ''u'' then
               (case r of
                  h1 # h2 # h3 # h4 # r' \<Rightarrow>
                    (case hex4 h1 h2 h3 h4 of
                       None \<Rightarrow> None
                     | Some n \<Rightarrow> if n < 256 then cons_result (char_of n) (parse_chars r') else None)
                | _ \<Rightarrow> None)
             else
               (case unescape e of
                  None \<Rightarrow> None
                | Some ch \<Rightarrow> cons_result ch (parse_chars r)))
      else if (of_char c :: nat) < 32 then None
      else cons_result c (parse_chars cs))"

text \<open>
  Values, the elements of an array after its opening bracket, and the members of an object
  after its opening brace. The first argument bounds the number of nested calls;
  \<open>JSON_parse\<close> starts with the length of the text, which is enough for every text that
  \<open>JSON_stringify\<close> writes (\<open>fuel_le_length\<close>). A member whose name stands twice in an
  object replaces the value of the first, as \<open>spread\<close> does.
\<close>

fun parse_value :: "nat \<Rightarrow> string \<Rightarrow> (json \<times> string) option"
  and parse_elems :: "nat \<Rightarrow> string \<Rightarrow> (json list \<times> string) option"
  and parse_members :: "nat \<Rightarrow> string \<Rightarrow> ((string \<times> json) list \<times> string) option"
where
  "parse_value 0 cs = None"
| "parse_value (Suc n) cs =
     (case skip_ws cs of
        [] \<Rightarrow> None
      | c # r \<Rightarrow>
          if c = CHR 0x22 then
            (case parse_chars r of None \<Rightarrow> None | Some (s, rest) \<Rightarrow> Some (JStr s, rest))
          else if c = CHR ''['' then
            (case skip_ws r of
               [] \<Rightarrow> None
             | c' # r' \<Rightarrow>
                 if c' = CHR '']'' then Some (JArr [], r')
                 else (case parse_elems n r of None \<Rightarrow> None | Some (vs, rest) \<Rightarrow> Some (JArr vs, rest)))
          else if c = CHR ''{'' then
            (case skip_ws r of
               [] \<Rightarrow> None
             | c' # r' \<Rightarrow>
                 if c' = CHR ''}'' then Some (JObj [], r')
                 else (case parse_members n r of
                         None \<Rightarrow> None
                       | Some (ms, rest) \<Rightarrow> Some (JObj (spread [] ms), rest)))
          else None)"
| "parse_elems 0 cs = None"
| "parse_elems (Suc n) cs =
     (case parse_value n cs of
        None \<Rightarrow> None
      | Some (v, r) \<Rightarrow>
          (case skip_ws r of
             [] \<Rightarrow> None
           | c # r' \<Rightarrow>
               if c = CHR '','' then
                 (case parse_elems n r' of None \<Rightarrow> None | Some (vs, rest) \<Rightarrow> Some (v # vs, rest))
               else if c = CHR '']'' then Some ([v], r')
               else None))"
| "parse_members 0 cs = None"
| "parse_members (Suc n) cs =
     (case skip_ws cs of
        [] \<Rightarrow> None
      | q # r \<Rightarrow>
          if q = CHR 0x22 then
            (case parse_chars r of
               None \<Rightarrow> None
             | Some (k, r1) \<Rightarrow>
                 (case skip_ws r1 of
                    [] \<Rightarrow> None
                  | colon # r2 \<Rightarrow>
                      if colon = CHR '':'' then
                        (case parse_value n r2 of
                           None \<Rightarrow> None
                         | Some (v, r3) \<Rightarrow>
                             (case skip_ws r3 of
                                [] \<Rightarrow> None
                              | c # r4 \<Rightarrow>
                                  if c = CHR '','' then
                                    (case parse_members n r4 of
                                       None \<Rightarrow> None
                                     | Some (ms, rest) \<Rightarrow> Some ((k, v) # ms, rest))
                                  else if c = CHR ''}'' then Some ([(k, v)], r4)
                                  else None))
                      else None))
          else None)"

text \<open>\<open>JSON.parse(text)\<close>: one value, then nothing but white space; else a \<open>SyntaxError\<close>.\<close>

definition JSON_parse :: "string \<Rightarrow> js_error + json" where
  "JSON_parse text' =
     (case parse_value (length text') text' of
        None \<Rightarrow> Inl SyntaxError
      | Some (v, rest) \<Rightarrow> if skip_ws rest = [] then Inr v else Inl SyntaxError)"

text \<open>
  The values that stand for JavaScript objects: no object has two properties of one name.
  An aggregate is such a value when its property names, and those of each record, are
  distinct.
\<close>

fun wf_json :: "json \<Rightarrow> bool" where
  "wf_json (JStr s) = True"
| "wf_json (JArr vs) = list_all wf_json vs"
| "wf_json (JObj ps) = (distinct (map fst ps) \<and> list_all (\<lambda>(k, v). wf_json v) ps)"

definition well_formed :: "aggregate \<Rightarrow> bool" where
  "well_formed d =
     (distinct (map fst d) \<and> list_all (\<lambda>(c, items). list_all (\<lambda>r. distinct (map fst r)) items) d)"

text \<open>The characters that open the text of a value: the quote, the bracket and the brace.\<close>

definition opens_value :: "char \<Rightarrow> bool" where
  "opens_value c = (c = CHR 0x22 \<or> c = CHR ''['' \<or> c = CHR ''{'')"

text \<open>A number of nested calls that is enough for the reader to read the text of a value.\<close>

fun fuel :: "json \<Rightarrow> nat" where
  "fuel (JStr s) = 1"
| "fuel (JArr vs) = 1 + sum_list (map (\<lambda>v. 1 + fuel v) vs)"
| "fuel (JObj ps) = 1 + sum_list (map (\<lambda>(k, v). 1 + fuel v) ps)"

subsection \<open>Persistence\<close>

text \<open>
  \<open>localStorage\<close> maps keys to texts; \<open>getItem\<close> of an absent key is \<open>null\<close>, here
  \<open>None\<close>.
\<close>

type_synonym storage = "string \<Rightarrow> string option"

definition STORAGE_KEY :: string where
  "STORAGE_KEY = ''nano_exhibition_manager_v1''"

text \<open>\<open>saveToStorage(state)\<close>: \<open>localStorage.setItem(STORAGE_KEY, JSON.stringify(state))\<close>.\<close>

definition saveToStorage :: "json \<Rightarrow> storage \<Rightarrow> storage" where
  "saveToStorage state ls = ls(STORAGE_KEY \<mapsto> JSON_stringify state)"

text \<open>
  \<open>loadFromStorage()\<close>. The body of the \<open>try\<close> block returns the sample data when \<open>raw\<close>
  is falsy (\<open>null\<close> or the empty text) and the parsed value otherwise; the \<open>catch\<close> block
  logs the exception with \<open>console.error\<close> and returns the sample data. The result is the
  value returned together with the exceptions logged; an \<open>Inl\<close> would be an exception
  that reaches the caller. The parser is a parameter: the claims about a text that fails
  to parse hold for every parser, and \<open>JSON_parse\<close> is the one used with
  \<open>saveToStorage\<close>.
\<close>

definition loadFromStorage_try :: "(string \<Rightarrow> js_error + json) \<Rightarrow> storage \<Rightarrow> js_error + json" where
  "loadFromStorage_try parse ls =
     (case ls STORAGE_KEY of
        None \<Rightarrow> Inr (json_of_aggregate sampleData)
      | Some raw \<Rightarrow> if raw = [] then Inr (json_of_aggregate sampleData) else parse raw)"

definition loadFromStorage ::
  "(string \<Rightarrow> js_error + json) \<Rightarrow> storage \<Rightarrow> js_error + (json \<times> js_error list)" where
  "loadFromStorage parse ls =
     (case loadFromStorage_try parse ls of
        Inr v \<Rightarrow> Inr (v, [])
      | Inl e \<Rightarrow> Inr (json_of_aggregate sampleData, [e]))"

section \<open>Properties\<close>

subsection \<open>Objects\<close>

lemma js_get_update: "js_get (AList.update k v d) k' = (if k' = k then Some v else js_get d k')"
  by (simp add: js_get_def update_conv')

lemma keys_update_present: "js_get d k \<noteq> None \<Longrightarrow> map fst (AList.update k v d) = map fst d"
  by (simp add: js_get_def update_keys map_of_eq_None_iff)

lemma map_of_fold_update:
  "distinct (map fst b) \<Longrightarrow>
     map_of (fold (\<lambda>(k, v) acc. AList.update k v acc) b a) k =
       (case map_of b k of None \<Rightarrow> map_of a k | Some v \<Rightarrow> Some v)"
proof (induction b arbitrary: a)
  case Nil
  then show ?case by simp
next
  case (Cons p b)
  obtain k' v' where p: "p = (k', v')" by (cases p)
  from Cons.prems have d: "distinct (map fst b)" and fresh: "map_of b k' = None"
    by (auto simp: p map_of_eq_None_iff)
  have "map_of (fold (\<lambda>(k, v) acc. AList.update k v acc) b (AList.update k' v' a)) k =
      (case map_of b k of None \<Rightarrow> map_of (AList.update k' v' a) k | Some v \<Rightarrow> Some v)"
    using d by (rule Cons.IH)
  then show ?case
    using fresh by (cases "k = k'") (simp_all add: p update_conv' split: option.splits)
qed

lemma js_get_spread:
  assumes "distinct (map fst b)"
  shows "js_get (spread a b) k = (case js_get b k of Some v \<Rightarrow> Some v | None \<Rightarrow> js_get a k)"
  using assms by (simp add: js_get_def spread_def map_of_fold_update split: option.splits)

lemma update_fresh: "k \<notin> fst ` set a \<Longrightarrow> AList.update k v a = a @ [(k, v)]"
  by (induction a) auto

lemma fold_update_fresh:
  "distinct (map fst (a @ b)) \<Longrightarrow> fold (\<lambda>(k, v) acc. AList.update k v acc) b a = a @ b"
proof (induction b arbitrary: a)
  case Nil
  then show ?case by simp
next
  case (Cons p b)
  obtain k v where p: "p = (k, v)" by (cases p)
  from Cons.prems have fresh: "k \<notin> fst ` set a"
    by (auto simp: p)
  from Cons.prems have "distinct (map fst ((a @ [(k, v)]) @ b))"
    by (auto simp: p)
  then have "fold (\<lambda>(k, v) acc. AList.update k v acc) b (a @ [(k, v)]) = (a @ [(k, v)]) @ b"
    by (rule Cons.IH)
  then show ?case
    using fresh by (simp add: p update_fresh)
qed

lemma spread_Nil: "distinct (map fst b) \<Longrightarrow> spread [] b = b"
  using fold_update_fresh [of "[]" b] by (simp add: spread_def)

lemma spread_keys_distinct: "distinct (map fst a) \<Longrightarrow> distinct (map fst (spread a b))"
  unfolding spread_def
  by (induction b arbitrary: a) (auto simp: distinct_update)

lemma new_item_fresh_form:
  "''id'' \<notin> fst ` set form \<Longrightarrow> distinct (map fst form) \<Longrightarrow> new_item p s form = (''id'', uid p s) # form"
  using fold_update_fresh [of "[(''id'', uid p s)]" form] by (simp add: new_item_def spread_def)

lemma has_collections_sampleData: "has_collections sampleData"
  by (simp add: has_collections_def sampleData_def collection_names_def js_get_def)

lemma has_collections_get:
  assumes "has_collections d" and "c \<in> set collection_names"
  obtains items where "js_get d c = Some items"
  using assms by (auto simp: has_collections_def list_all_iff)

subsection \<open>Adding a record\<close>

text \<open>
  C2: for each of the four collection names and every item, \<open>addItem\<close> yields an aggregate
  whose named collection is the old one with the item appended at the end (one record
  longer) and whose other collections, and the order of its properties, are unchanged.
\<close>

theorem addItem_appends:
  assumes "has_collections d" and "c \<in> set collection_names"
  shows "\<exists>items d'. js_get d c = Some items \<and> addItem c item d = Inr d'
           \<and> js_get d' c = Some (items @ [item])
           \<and> length (items @ [item]) = length items + 1
           \<and> (\<forall>c'. c' \<noteq> c \<longrightarrow> js_get d' c' = js_get d c')
           \<and> map fst d' = map fst d"
proof -
  from assms obtain items where items: "js_get d c = Some items"
    by (rule has_collections_get)
  let ?d' = "AList.update c (items @ [item]) d"
  have "addItem c item d = Inr ?d'"
    by (simp add: addItem_def items)
  moreover have "js_get ?d' c = Some (items @ [item])"
    by (simp add: js_get_update)
  moreover have "\<forall>c'. c' \<noteq> c \<longrightarrow> js_get ?d' c' = js_get d c'"
    by (simp add: js_get_update)
  moreover have "map fst ?d' = map fst d"
    using items by (simp add: keys_update_present)
  ultimately show ?thesis
    using items by simp
qed

theorem addItem_appends_witness:
  "has_collections sampleData \<and> ''attendees'' \<in> set collection_names
   \<and> (\<exists>d'. addItem ''attendees'' [(''id'', ''at-2''), (''name'', ''Jane Doe'')] sampleData = Inr d'
        \<and> js_get d' ''attendees'' =
            Some [[(''id'', ''at-1''), (''name'', ''Ali Reza''), (''company'', ''NanoTech Lab''),
                   (''type'', ''Visitor''), (''email'', ''ali@example.com'')],
                  [(''id'', ''at-2''), (''name'', ''Jane Doe'')]]
        \<and> js_get d' ''booths'' = js_get sampleData ''booths'')"
proof -
  have c: "''attendees'' \<in> set collection_names"
    by (simp add: collection_names_def)
  have p: "js_get sampleData ''attendees'' =
      Some [[(''id'', ''at-1''), (''name'', ''Ali Reza''), (''company'', ''NanoTech Lab''),
             (''type'', ''Visitor''), (''email'', ''ali@example.com'')]]"
    by (simp add: sampleData_def js_get_def)
  from addItem_appends [OF has_collections_sampleData c, of "[(''id'', ''at-2''), (''name'', ''Jane Doe'')]"]
  obtain items d' where "js_get sampleData ''attendees'' = Some items"
    and "addItem ''attendees'' [(''id'', ''at-2''), (''name'', ''Jane Doe'')] sampleData = Inr d'"
    and "js_get d' ''attendees'' = Some (items @ [[(''id'', ''at-2''), (''name'', ''Jane Doe'')]])"
    and "\<forall>c'. c' \<noteq> ''attendees'' \<longrightarrow> js_get d' c' = js_get sampleData c'"
    by blast
  then show ?thesis
    using c p has_collections_sampleData by simp
qed

lemma update_same: "js_get d c = Some items \<Longrightarrow> AList.update c items d = d"
  by (simp add: js_get_def update_triv)

lemma map_unmatched:
  "\<forall>it \<in> set items. js_get it ''id'' \<noteq> Some i \<Longrightarrow>
     map (\<lambda>it. if js_get it ''id'' = Some i then f it else it) items = items"
  by (induction items) auto

lemma filter_unmatched:
  "\<forall>it \<in> set items. js_get it ''id'' \<noteq> Some i \<Longrightarrow>
     filter (\<lambda>it. js_get it ''id'' \<noteq> Some i) items = items"
  by (induction items) auto

lemma length_filter_distinct_map:
  "distinct (map f xs) \<Longrightarrow> y \<in> f ` set xs \<Longrightarrow> length (filter (\<lambda>x. f x = y) xs) = 1"
  by (induction xs) (auto simp: filter_empty_conv image_iff)

lemma ids_of_Some: "js_get d c = Some items \<Longrightarrow> ids_of d c = map (\<lambda>it. js_get it ''id'') items"
  by (simp add: ids_of_def)

lemma in_collection_names:
  "c \<in> set collection_names \<longleftrightarrow> c = ''exhibitors'' \<or> c = ''booths'' \<or> c = ''events'' \<or> c = ''attendees''"
  by (auto simp: collection_names_def)

subsection \<open>Updating a record\<close>

text \<open>
  C7: for each of the four collection names, every id that no record of that collection
  carries and every patch, \<open>updateItem\<close> returns the aggregate as it was: a missing id is a
  silent no-op, not an error.
\<close>

theorem updateItem_missing_id:
  assumes "has_collections d" and "c \<in> set collection_names"
    and "Some i \<notin> set (ids_of d c)"
  shows "updateItem c i patch d = Inr d"
proof -
  from assms(1,2) obtain items where items: "js_get d c = Some items"
    by (rule has_collections_get)
  with assms(3) have "\<forall>it \<in> set items. js_get it ''id'' \<noteq> Some i"
    by (force simp: ids_of_Some)
  then have "map (\<lambda>it. if js_get it ''id'' = Some i then spread it patch else it) items = items"
    by (rule map_unmatched)
  then show ?thesis
    using items by (simp add: updateItem_def update_same)
qed

theorem updateItem_missing_id_witness:
  "has_collections sampleData \<and> ''booths'' \<in> set collection_names
   \<and> Some ''b-C3'' \<notin> set (ids_of sampleData ''booths'')
   \<and> updateItem ''booths'' ''b-C3'' [(''size'', ''4x4'')] sampleData = Inr sampleData"
proof -
  have c: "''booths'' \<in> set collection_names"
    by (simp add: collection_names_def)
  have n: "Some ''b-C3'' \<notin> set (ids_of sampleData ''booths'')"
    by (simp add: ids_of_def sampleData_def js_get_def)
  show ?thesis
    using updateItem_missing_id [OF has_collections_sampleData c n] c n has_collections_sampleData
    by simp
qed

text \<open>
  C1, as amended: for each of the four collection names, every id and every patch (an
  object), \<open>updateItem\<close> yields an aggregate in which every record with that id has each
  field named in the patch replaced by the patch's value and keeps its other fields, the
  records with another id and the other collections are unchanged, and the collection has
  the length it had. The id of a matching record stays when the patch has no \<open>id\<close> field or
  carries the same id; an \<open>id\<close> field in the patch is not ignored, it replaces the id like any
  other field (the second conjunct at \<open>k = ''id''\<close>).
\<close>

theorem updateItem_merges_patch:
  assumes "has_collections d" and "c \<in> set collection_names" and "distinct (map fst patch)"
  shows "\<exists>items items' d'. js_get d c = Some items \<and> updateItem c i patch d = Inr d'
           \<and> js_get d' c = Some items' \<and> length items' = length items
           \<and> (\<forall>n<length items. js_get (items ! n) ''id'' = Some i \<longrightarrow>
                 (\<forall>k. js_get (items' ! n) k =
                    (case js_get patch k of Some v \<Rightarrow> Some v | None \<Rightarrow> js_get (items ! n) k)))
           \<and> (\<forall>n<length items. js_get (items ! n) ''id'' = Some i \<longrightarrow>
                 (js_get patch ''id'' = None \<or> js_get patch ''id'' = Some i) \<longrightarrow>
                 js_get (items' ! n) ''id'' = Some i)
           \<and> (\<forall>n<length items. js_get (items ! n) ''id'' \<noteq> Some i \<longrightarrow> items' ! n = items ! n)
           \<and> (\<forall>c'. c' \<noteq> c \<longrightarrow> js_get d' c' = js_get d c')"
proof -
  from assms(1,2) obtain items where items: "js_get d c = Some items"
    by (rule has_collections_get)
  let ?items' = "map (\<lambda>it. if js_get it ''id'' = Some i then spread it patch else it) items"
  let ?d' = "AList.update c ?items' d"
  have run: "updateItem c i patch d = Inr ?d'"
    by (simp add: updateItem_def items)
  have get: "js_get ?d' c = Some ?items'"
    by (simp add: js_get_update)
  have len: "length ?items' = length items"
    by simp
  have merged: "\<forall>n<length items. js_get (items ! n) ''id'' = Some i \<longrightarrow>
      (\<forall>k. js_get (?items' ! n) k =
         (case js_get patch k of Some v \<Rightarrow> Some v | None \<Rightarrow> js_get (items ! n) k))"
    using assms(3) by (simp add: js_get_spread)
  have same_id: "\<forall>n<length items. js_get (items ! n) ''id'' = Some i \<longrightarrow>
      (js_get patch ''id'' = None \<or> js_get patch ''id'' = Some i) \<longrightarrow>
      js_get (?items' ! n) ''id'' = Some i"
    using assms(3) by (auto simp: js_get_spread)
  have others: "\<forall>n<length items. js_get (items ! n) ''id'' \<noteq> Some i \<longrightarrow> ?items' ! n = items ! n"
    by simp
  have frame: "\<forall>c'. c' \<noteq> c \<longrightarrow> js_get ?d' c' = js_get d c'"
    by (simp add: js_get_update)
  from items run get len merged same_id others frame show ?thesis
    by blast
qed

theorem updateItem_merges_patch_witness:
  "has_collections sampleData \<and> ''booths'' \<in> set collection_names
   \<and> distinct (map fst [(''size'', ''4x4'')])
   \<and> (\<exists>d' items'. updateItem ''booths'' ''b-A1'' [(''size'', ''4x4'')] sampleData = Inr d'
         \<and> js_get d' ''booths'' = Some items' \<and> length items' = 2
         \<and> js_get (items' ! 0) ''size'' = Some ''4x4''
         \<and> js_get (items' ! 0) ''code'' = Some ''A1''
         \<and> js_get (items' ! 0) ''id'' = Some ''b-A1''
         \<and> items' ! 1 = [(''id'', ''b-B2''), (''code'', ''B2''), (''size'', ''3x2''), (''notes'', ''Corner'')]
         \<and> js_get d' ''events'' = js_get sampleData ''events'')"
proof -
  let ?patch = "[(''size'', ''4x4'')]"
  let ?booths = "[[(''id'', ''b-A1''), (''code'', ''A1''), (''size'', ''3x3''), (''notes'', ''Near entrance'')],
                  [(''id'', ''b-B2''), (''code'', ''B2''), (''size'', ''3x2''), (''notes'', ''Corner'')]]"
  have c: "''booths'' \<in> set collection_names"
    by (simp add: collection_names_def)
  have dp: "distinct (map fst ?patch)"
    by simp
  have p: "js_get sampleData ''booths'' = Some ?booths"
    by (simp add: sampleData_def js_get_def)
  from updateItem_merges_patch [OF has_collections_sampleData c dp, of "''b-A1''"]
  obtain items items' d' where items: "js_get sampleData ''booths'' = Some items"
    and run: "updateItem ''booths'' ''b-A1'' ?patch sampleData = Inr d'"
    and get: "js_get d' ''booths'' = Some items'"
    and len: "length items' = length items"
    and merged: "\<forall>n<length items. js_get (items ! n) ''id'' = Some ''b-A1'' \<longrightarrow>
       (\<forall>k. js_get (items' ! n) k =
          (case js_get ?patch k of Some v \<Rightarrow> Some v | None \<Rightarrow> js_get (items ! n) k))"
    and same_id: "\<forall>n<length items. js_get (items ! n) ''id'' = Some ''b-A1'' \<longrightarrow>
       (js_get ?patch ''id'' = None \<or> js_get ?patch ''id'' = Some ''b-A1'') \<longrightarrow>
       js_get (items' ! n) ''id'' = Some ''b-A1''"
    and others: "\<forall>n<length items. js_get (items ! n) ''id'' \<noteq> Some ''b-A1'' \<longrightarrow> items' ! n = items ! n"
    and frame: "\<forall>c'. c' \<noteq> ''booths'' \<longrightarrow> js_get d' c' = js_get sampleData c'"
    by (elim exE conjE) (rule that)
  from items p have eq: "items = ?booths"
    by simp
  have l2: "length items' = 2"
    using len eq by simp
  have m0: "js_get (items ! 0) ''id'' = Some ''b-A1''"
    by (simp add: eq js_get_def)
  have m1: "js_get (items ! 1) ''id'' \<noteq> Some ''b-A1''"
    by (simp add: eq js_get_def)
  have n0: "0 < length items" and n1: "1 < length items"
    by (simp_all add: eq)
  from merged n0 m0 have k: "\<forall>k. js_get (items' ! 0) k =
      (case js_get ?patch k of Some v \<Rightarrow> Some v | None \<Rightarrow> js_get (items ! 0) k)"
    by blast
  have size: "js_get (items' ! 0) ''size'' = Some ''4x4''"
    using k by (simp add: js_get_def)
  have code: "js_get (items' ! 0) ''code'' = Some ''A1''"
    using k by (simp add: js_get_def eq)
  have "js_get ?patch ''id'' = None"
    by (simp add: js_get_def)
  with same_id n0 m0 have id0: "js_get (items' ! 0) ''id'' = Some ''b-A1''"
    by blast
  from others n1 m1 have "items' ! 1 = items ! 1"
    by blast
  then have second: "items' ! 1 = [(''id'', ''b-B2''), (''code'', ''B2''), (''size'', ''3x2''), (''notes'', ''Corner'')]"
    by (simp add: eq)
  from frame have ev: "js_get d' ''events'' = js_get sampleData ''events''"
    by simp
  from run get l2 size code id0 second ev
  have "\<exists>d' items'. updateItem ''booths'' ''b-A1'' ?patch sampleData = Inr d'
         \<and> js_get d' ''booths'' = Some items' \<and> length items' = 2
         \<and> js_get (items' ! 0) ''size'' = Some ''4x4''
         \<and> js_get (items' ! 0) ''code'' = Some ''A1''
         \<and> js_get (items' ! 0) ''id'' = Some ''b-A1''
         \<and> items' ! 1 = [(''id'', ''b-B2''), (''code'', ''B2''), (''size'', ''3x2''), (''notes'', ''Corner'')]
         \<and> js_get d' ''events'' = js_get sampleData ''events''"
    by (intro exI [of _ d'] exI [of _ items'] conjI)
  with c dp has_collections_sampleData show ?thesis
    by (intro conjI)

qed

text \<open>
  The claim as stated fails: \<open>b-A1\<close> occurs among the sample booths, and a patch with the
  id \<open>b-Z9\<close> changes the id of that booth.
\<close>

theorem updateItem_patch_id_counterexample:
  "updateItem ''booths'' ''b-A1'' [(''id'', ''b-Z9''), (''size'', ''4x4'')] sampleData =
     Inr (AList.update ''booths''
            [[(''id'', ''b-Z9''), (''code'', ''A1''), (''size'', ''4x4''), (''notes'', ''Near entrance'')],
             [(''id'', ''b-B2''), (''code'', ''B2''), (''size'', ''3x2''), (''notes'', ''Corner'')]]
            sampleData)
   \<and> Some ''b-A1'' \<in> set (ids_of sampleData ''booths'')
   \<and> ''b-Z9'' \<noteq> ''b-A1''"
  by (simp add: updateItem_def sampleData_def js_get_def spread_def ids_of_def)

subsection \<open>Removing a record\<close>

text \<open>
  C3, as amended: for each of the four collection names and every id, \<open>removeItem\<close>
  shortens the collection by the number of records that carry the id, which is exactly one
  when the ids of the collection are distinct and the id occurs, and returns the aggregate
  as it was when no record carries the id.
\<close>

theorem removeItem_length:
  assumes "has_collections d" and "c \<in> set collection_names"
  shows "\<exists>items items' d'. js_get d c = Some items \<and> removeItem c i d = Inr d'
           \<and> js_get d' c = Some items'
           \<and> length items' + length (filter (\<lambda>it. js_get it ''id'' = Some i) items) = length items
           \<and> (distinct (ids_of d c) \<and> Some i \<in> set (ids_of d c) \<longrightarrow> length items' + 1 = length items)
           \<and> (Some i \<notin> set (ids_of d c) \<longrightarrow> d' = d)
           \<and> (\<forall>c'. c' \<noteq> c \<longrightarrow> js_get d' c' = js_get d c')"
proof -
  from assms obtain items where items: "js_get d c = Some items"
    by (rule has_collections_get)
  let ?keep = "\<lambda>it. js_get it ''id'' \<noteq> Some i"
  let ?items' = "filter ?keep items"
  let ?d' = "AList.update c ?items' d"
  have run: "removeItem c i d = Inr ?d'"
    by (simp add: removeItem_def items)
  have get: "js_get ?d' c = Some ?items'"
    by (simp add: js_get_update)
  have count: "length ?items' + length (filter (\<lambda>it. js_get it ''id'' = Some i) items) = length items"
    using sum_length_filter_compl [of "\<lambda>it. js_get it ''id'' = Some i" items] by simp
  have one: "distinct (ids_of d c) \<and> Some i \<in> set (ids_of d c) \<longrightarrow> length ?items' + 1 = length items"
  proof
    assume "distinct (ids_of d c) \<and> Some i \<in> set (ids_of d c)"
    then have "distinct (map (\<lambda>it. js_get it ''id'') items)"
      and "Some i \<in> (\<lambda>it. js_get it ''id'') ` set items"
      by (simp_all add: ids_of_Some [OF items])
    then have "length (filter (\<lambda>it. js_get it ''id'' = Some i) items) = 1"
      by (rule length_filter_distinct_map)
    with count show "length ?items' + 1 = length items"
      by simp
  qed
  have none: "Some i \<notin> set (ids_of d c) \<longrightarrow> ?d' = d"
  proof
    assume "Some i \<notin> set (ids_of d c)"
    then have "\<forall>it \<in> set items. js_get it ''id'' \<noteq> Some i"
      by (force simp: ids_of_Some [OF items])
    then have "?items' = items"
      by (rule filter_unmatched)
    then show "?d' = d"
      using items by (simp add: update_same)
  qed
  have frame: "\<forall>c'. c' \<noteq> c \<longrightarrow> js_get ?d' c' = js_get d c'"
    by (simp add: js_get_update)
  from items run get count one none frame show ?thesis
    by blast
qed

theorem removeItem_length_witness:
  "has_collections sampleData \<and> ''exhibitors'' \<in> set collection_names
   \<and> distinct (ids_of sampleData ''exhibitors'') \<and> Some ''ex-1'' \<in> set (ids_of sampleData ''exhibitors'')
   \<and> (\<exists>d' items'. removeItem ''exhibitors'' ''ex-1'' sampleData = Inr d'
         \<and> js_get d' ''exhibitors'' = Some items' \<and> length items' + 1 = 2)"
proof -
  have c: "''exhibitors'' \<in> set collection_names"
    by (simp add: collection_names_def)
  have ids: "ids_of sampleData ''exhibitors'' = [Some ''ex-1'', Some ''ex-2'']"
    by (simp add: ids_of_def sampleData_def js_get_def)
  have len: "\<And>items. js_get sampleData ''exhibitors'' = Some items \<Longrightarrow> length items = 2"
    by (auto simp: sampleData_def js_get_def)
  from removeItem_length [OF has_collections_sampleData c, of "''ex-1''"]
  obtain items items' d' where items: "js_get sampleData ''exhibitors'' = Some items"
    and run: "removeItem ''exhibitors'' ''ex-1'' sampleData = Inr d'"
    and get: "js_get d' ''exhibitors'' = Some items'"
    and one: "distinct (ids_of sampleData ''exhibitors'') \<and> Some ''ex-1'' \<in> set (ids_of sampleData ''exhibitors'')
                \<longrightarrow> length items' + 1 = length items"
    by (elim exE conjE) (rule that)
  have d: "distinct (ids_of sampleData ''exhibitors'')"
    and m: "Some ''ex-1'' \<in> set (ids_of sampleData ''exhibitors'')"
    by (simp_all add: ids)
  with one len [OF items] have "length items' + 1 = 2"
    by simp
  with run get
  have "\<exists>d' items'. removeItem ''exhibitors'' ''ex-1'' sampleData = Inr d'
         \<and> js_get d' ''exhibitors'' = Some items' \<and> length items' + 1 = 2"
    by (intro exI [of _ d'] exI [of _ items'] conjI)
  with has_collections_sampleData c d m show ?thesis
    by (intro conjI)
qed

lemma first_registration_eq:
  "first_registration = AList.update ''attendees''
       [[(''id'', ''at-1''), (''name'', ''Ali Reza''), (''company'', ''NanoTech Lab''),
         (''type'', ''Visitor''), (''email'', ''ali@example.com'')],
        [(''id'', ''at-k3j9x2a''), (''name'', ''Jane Doe''), (''company'', ''Acme''),
         (''email'', ''jane@acme.com''), (''type'', ''Visitor'')]] sampleData"
  by (simp add: first_registration_def addItem_def new_item_def uid_def spread_def sampleData_def js_get_def)

lemma second_registration_eq:
  "second_registration = AList.update ''attendees''
       [[(''id'', ''at-1''), (''name'', ''Ali Reza''), (''company'', ''NanoTech Lab''),
         (''type'', ''Visitor''), (''email'', ''ali@example.com'')],
        [(''id'', ''at-k3j9x2a''), (''name'', ''Jane Doe''), (''company'', ''Acme''),
         (''email'', ''jane@acme.com''), (''type'', ''Visitor'')],
        [(''id'', ''at-k3j9x2a''), (''name'', ''John Roe''), (''company'', ''Initech''),
         (''email'', ''john@initech.com''), (''type'', ''Speaker'')]] sampleData"
  by (simp add: second_registration_def first_registration_eq addItem_def new_item_def uid_def spread_def
      sampleData_def js_get_def)

text \<open>
  The claim as stated fails: after two registrations with the same random draw, three
  attendees are stored, and removing the id of the draw leaves one.
\<close>

theorem removeItem_duplicate_id_counterexample:
  "js_get second_registration ''attendees'' =
     Some [[(''id'', ''at-1''), (''name'', ''Ali Reza''), (''company'', ''NanoTech Lab''),
            (''type'', ''Visitor''), (''email'', ''ali@example.com'')],
           [(''id'', ''at-k3j9x2a''), (''name'', ''Jane Doe''), (''company'', ''Acme''),
            (''email'', ''jane@acme.com''), (''type'', ''Visitor'')],
           [(''id'', ''at-k3j9x2a''), (''name'', ''John Roe''), (''company'', ''Initech''),
            (''email'', ''john@initech.com''), (''type'', ''Speaker'')]]
   \<and> removeItem ''attendees'' ''at-k3j9x2a'' second_registration = Inr sampleData
   \<and> js_get sampleData ''attendees'' =
     Some [[(''id'', ''at-1''), (''name'', ''Ali Reza''), (''company'', ''NanoTech Lab''),
            (''type'', ''Visitor''), (''email'', ''ali@example.com'')]]"
  by (simp add: second_registration_eq removeItem_def sampleData_def js_get_def)

text \<open>
  C10: \<open>removeItem\<close> removes every record whose id is the given one and keeps the others in
  order, so that the collection gets shorter by the number of such records, which can be
  more than one; \<open>updateItem\<close> spreads the patch over every record whose id is the given one.
\<close>

theorem removeItem_updateItem_every_match:
  assumes "js_get d c = Some items"
  shows "(\<exists>d' items'. removeItem c i d = Inr d' \<and> js_get d' c = Some items'
            \<and> (\<forall>it \<in> set items'. js_get it ''id'' \<noteq> Some i)
            \<and> items' = filter (\<lambda>it. js_get it ''id'' \<noteq> Some i) items
            \<and> length items - length items' = length (filter (\<lambda>it. js_get it ''id'' = Some i) items))
       \<and> (\<exists>d' items'. updateItem c i patch d = Inr d' \<and> js_get d' c = Some items'
            \<and> length items' = length items
            \<and> (\<forall>n<length items. js_get (items ! n) ''id'' = Some i \<longrightarrow> items' ! n = spread (items ! n) patch))"
proof
  let ?items' = "filter (\<lambda>it. js_get it ''id'' \<noteq> Some i) items"
  let ?d' = "AList.update c ?items' d"
  have run: "removeItem c i d = Inr ?d'"
    by (simp add: removeItem_def assms)
  have get: "js_get ?d' c = Some ?items'"
    by (simp add: js_get_update)
  have gone: "\<forall>it \<in> set ?items'. js_get it ''id'' \<noteq> Some i"
    by simp
  have "length ?items' + length (filter (\<lambda>it. js_get it ''id'' = Some i) items) = length items"
    using sum_length_filter_compl [of "\<lambda>it. js_get it ''id'' = Some i" items] by simp
  then have count: "length items - length ?items' = length (filter (\<lambda>it. js_get it ''id'' = Some i) items)"
    by simp
  from run get gone count
  show "\<exists>d' items'. removeItem c i d = Inr d' \<and> js_get d' c = Some items'
            \<and> (\<forall>it \<in> set items'. js_get it ''id'' \<noteq> Some i)
            \<and> items' = filter (\<lambda>it. js_get it ''id'' \<noteq> Some i) items
            \<and> length items - length items' = length (filter (\<lambda>it. js_get it ''id'' = Some i) items)"
    by blast
next
  let ?items' = "map (\<lambda>it. if js_get it ''id'' = Some i then spread it patch else it) items"
  let ?d' = "AList.update c ?items' d"
  have run: "updateItem c i patch d = Inr ?d'"
    by (simp add: updateItem_def assms)
  have get: "js_get ?d' c = Some ?items'"
    by (simp add: js_get_update)
  have len: "length ?items' = length items"
    by simp
  have all: "\<forall>n<length items. js_get (items ! n) ''id'' = Some i \<longrightarrow> ?items' ! n = spread (items ! n) patch"
    by simp
  from run get len all
  show "\<exists>d' items'. updateItem c i patch d = Inr d' \<and> js_get d' c = Some items'
            \<and> length items' = length items
            \<and> (\<forall>n<length items. js_get (items ! n) ''id'' = Some i \<longrightarrow> items' ! n = spread (items ! n) patch)"
    by blast
qed

lemma second_registration_attendees:
  "js_get second_registration ''attendees'' =
     Some [[(''id'', ''at-1''), (''name'', ''Ali Reza''), (''company'', ''NanoTech Lab''),
            (''type'', ''Visitor''), (''email'', ''ali@example.com'')],
           [(''id'', ''at-k3j9x2a''), (''name'', ''Jane Doe''), (''company'', ''Acme''),
            (''email'', ''jane@acme.com''), (''type'', ''Visitor'')],
           [(''id'', ''at-k3j9x2a''), (''name'', ''John Roe''), (''company'', ''Initech''),
            (''email'', ''john@initech.com''), (''type'', ''Speaker'')]]"
  by (simp add: second_registration_eq js_get_update)

theorem removeItem_updateItem_every_match_witness:
  "(\<exists>items. js_get second_registration ''attendees'' = Some items \<and> length items = 3
      \<and> (\<exists>d' items'. removeItem ''attendees'' ''at-k3j9x2a'' second_registration = Inr d'
            \<and> js_get d' ''attendees'' = Some items' \<and> length items - length items' = 2)
      \<and> (\<exists>d' items'. updateItem ''attendees'' ''at-k3j9x2a'' [(''type'', ''Staff'')] second_registration = Inr d'
            \<and> js_get d' ''attendees'' = Some items'
            \<and> js_get (items' ! 1) ''type'' = Some ''Staff''
            \<and> js_get (items' ! 2) ''type'' = Some ''Staff''))"
proof -
  let ?items = "[[(''id'', ''at-1''), (''name'', ''Ali Reza''), (''company'', ''NanoTech Lab''),
            (''type'', ''Visitor''), (''email'', ''ali@example.com'')],
           [(''id'', ''at-k3j9x2a''), (''name'', ''Jane Doe''), (''company'', ''Acme''),
            (''email'', ''jane@acme.com''), (''type'', ''Visitor'')],
           [(''id'', ''at-k3j9x2a''), (''name'', ''John Roe''), (''company'', ''Initech''),
            (''email'', ''john@initech.com''), (''type'', ''Speaker'')]]"
  note both = removeItem_updateItem_every_match [OF second_registration_attendees,
      of "''at-k3j9x2a''" "[(''type'', ''Staff'')]"]
  from both obtain d1 items1 where run1: "removeItem ''attendees'' ''at-k3j9x2a'' second_registration = Inr d1"
    and get1: "js_get d1 ''attendees'' = Some items1"
    and count: "length ?items - length items1 =
      length (filter (\<lambda>it. js_get it ''id'' = Some ''at-k3j9x2a'') ?items)"
    by (elim exE conjE) (rule that)
  from both obtain d2 items2 where run2: "updateItem ''attendees'' ''at-k3j9x2a'' [(''type'', ''Staff'')] second_registration = Inr d2"
    and get2: "js_get d2 ''attendees'' = Some items2"
    and all: "\<forall>n<length ?items. js_get (?items ! n) ''id'' = Some ''at-k3j9x2a'' \<longrightarrow>
       items2 ! n = spread (?items ! n) [(''type'', ''Staff'')]"
    by (elim exE conjE) (rule that)
  have two: "length ?items - length items1 = 2"
    using count by (simp add: js_get_def)
  have "items2 ! 1 = spread (?items ! 1) [(''type'', ''Staff'')]"
    using all by (simp add: js_get_def)
  then have s1: "js_get (items2 ! 1) ''type'' = Some ''Staff''"
    by (simp add: spread_def js_get_def)
  have "items2 ! 2 = spread (?items ! 2) [(''type'', ''Staff'')]"
    using all by (simp add: js_get_def)
  then have s2: "js_get (items2 ! 2) ''type'' = Some ''Staff''"
    by (simp add: spread_def js_get_def)
  from run1 get1 two
  have a: "\<exists>d' items'. removeItem ''attendees'' ''at-k3j9x2a'' second_registration = Inr d'
            \<and> js_get d' ''attendees'' = Some items' \<and> length ?items - length items' = 2"
    by (intro exI [of _ d1] exI [of _ items1] conjI)
  from run2 get2 s1 s2
  have b: "\<exists>d' items'. updateItem ''attendees'' ''at-k3j9x2a'' [(''type'', ''Staff'')] second_registration = Inr d'
            \<and> js_get d' ''attendees'' = Some items'
            \<and> js_get (items' ! 1) ''type'' = Some ''Staff''
            \<and> js_get (items' ! 2) ''type'' = Some ''Staff''"
    by (intro exI [of _ d2] exI [of _ items2] conjI)
  have l: "length ?items = 3"
    by simp
  from second_registration_attendees l a b show ?thesis
    by (intro exI [of _ ?items] conjI)
qed

lemma uid_inject: "uid p s' = uid p s \<longleftrightarrow> s' = s"
  by (simp add: uid_def)

subsection \<open>The id of a new record\<close>

text \<open>
  C8, as amended: for each of the four collection names and every form without an \<open>id\<close>
  field, the record that record creation makes and \<open>addItem\<close> appends carries the id
  \<open>uid prefix rnd\<close>. \<open>addItem\<close> checks nothing: the ids of the collection are distinct
  afterwards exactly when they were before and the new id was not among them, which is so
  whenever every id of the collection was made with the same prefix from another draw.
\<close>

theorem addItem_new_item_id:
  assumes "has_collections d" and "c \<in> set collection_names"
    and "''id'' \<notin> fst ` set form" and "distinct (map fst form)"
  shows "\<exists>items d'. js_get d c = Some items \<and> addItem c (new_item p s form) d = Inr d'
           \<and> js_get d' c = Some (items @ [new_item p s form])
           \<and> js_get (new_item p s form) ''id'' = Some (uid p s)
           \<and> ids_of d' c = ids_of d c @ [Some (uid p s)]
           \<and> (distinct (ids_of d' c) \<longleftrightarrow> distinct (ids_of d c) \<and> Some (uid p s) \<notin> set (ids_of d c))
           \<and> ((\<forall>x \<in> set (ids_of d c). \<exists>s'. x = Some (uid p s') \<and> s' \<noteq> s)
                 \<longrightarrow> Some (uid p s) \<notin> set (ids_of d c))"
proof -
  from assms(1,2) obtain items where items: "js_get d c = Some items"
    by (rule has_collections_get)
  let ?item = "new_item p s form"
  let ?d' = "AList.update c (items @ [?item]) d"
  have run: "addItem c ?item d = Inr ?d'"
    by (simp add: addItem_def items)
  have get: "js_get ?d' c = Some (items @ [?item])"
    by (simp add: js_get_update)
  have item: "?item = (''id'', uid p s) # form"
    using assms(3,4) by (rule new_item_fresh_form)
  have id': "js_get ?item ''id'' = Some (uid p s)"
    by (simp add: item js_get_def)
  have ids: "ids_of ?d' c = ids_of d c @ [Some (uid p s)]"
    by (simp add: ids_of_Some [OF get] ids_of_Some [OF items] id')
  have dist: "distinct (ids_of ?d' c) \<longleftrightarrow> distinct (ids_of d c) \<and> Some (uid p s) \<notin> set (ids_of d c)"
    by (simp add: ids)
  have fresh: "(\<forall>x \<in> set (ids_of d c). \<exists>s'. x = Some (uid p s') \<and> s' \<noteq> s)
                 \<longrightarrow> Some (uid p s) \<notin> set (ids_of d c)"
    by (auto simp: uid_inject)
  from items run get id' ids dist fresh show ?thesis
    by blast
qed

theorem addItem_new_item_id_witness:
  "has_collections sampleData \<and> ''attendees'' \<in> set collection_names
   \<and> ''id'' \<notin> fst ` set [(''name'', ''Jane Doe''), (''company'', ''Acme'')]
   \<and> distinct (map fst [(''name'', ''Jane Doe''), (''company'', ''Acme'')])
   \<and> ids_of sampleData ''attendees'' = [Some (uid ''at'' ''1'')]
   \<and> (\<exists>d'. addItem ''attendees'' (new_item ''at'' ''k3j9x2a'' [(''name'', ''Jane Doe''), (''company'', ''Acme'')])
               sampleData = Inr d'
         \<and> ids_of d' ''attendees'' = [Some (uid ''at'' ''1''), Some (uid ''at'' ''k3j9x2a'')]
         \<and> Some (uid ''at'' ''k3j9x2a'') \<notin> set (ids_of sampleData ''attendees''))"
proof -
  let ?form = "[(''name'', ''Jane Doe''), (''company'', ''Acme'')]"
  have c: "''attendees'' \<in> set collection_names"
    by (simp add: collection_names_def)
  have f: "''id'' \<notin> fst ` set ?form" and df: "distinct (map fst ?form)"
    by simp_all
  have ids0: "ids_of sampleData ''attendees'' = [Some (uid ''at'' ''1'')]"
    by (simp add: ids_of_def sampleData_def js_get_def uid_def)
  from addItem_new_item_id [OF has_collections_sampleData c f df, of "''at''" "''k3j9x2a''"]
  obtain items d' where run: "addItem ''attendees'' (new_item ''at'' ''k3j9x2a'' ?form) sampleData = Inr d'"
    and ids: "ids_of d' ''attendees'' = ids_of sampleData ''attendees'' @ [Some (uid ''at'' ''k3j9x2a'')]"
    and fresh: "(\<forall>x \<in> set (ids_of sampleData ''attendees''). \<exists>s'. x = Some (uid ''at'' s') \<and> s' \<noteq> ''k3j9x2a'')
                 \<longrightarrow> Some (uid ''at'' ''k3j9x2a'') \<notin> set (ids_of sampleData ''attendees'')"
    by (elim exE conjE) (rule that)
  have "\<forall>x \<in> set (ids_of sampleData ''attendees''). \<exists>s'. x = Some (uid ''at'' s') \<and> s' \<noteq> ''k3j9x2a''"
    unfolding ids0 by (intro ballI exI [of _ "''1''"]) simp
  with fresh have new: "Some (uid ''at'' ''k3j9x2a'') \<notin> set (ids_of sampleData ''attendees'')"
    by (rule mp)
  from ids have ids': "ids_of d' ''attendees'' = [Some (uid ''at'' ''1''), Some (uid ''at'' ''k3j9x2a'')]"
    by (simp only: ids0 append.simps)
  from run ids' new
  have "\<exists>d'. addItem ''attendees'' (new_item ''at'' ''k3j9x2a'' ?form) sampleData = Inr d'
         \<and> ids_of d' ''attendees'' = [Some (uid ''at'' ''1''), Some (uid ''at'' ''k3j9x2a'')]
         \<and> Some (uid ''at'' ''k3j9x2a'') \<notin> set (ids_of sampleData ''attendees'')"
    by (intro exI [of _ d'] conjI)
  with has_collections_sampleData c f df ids0 show ?thesis
    by (intro conjI)
qed

text \<open>
  The claim as stated fails: when \<open>Math.random()\<close> repeats a draw, the new record gets an id
  that a record of the collection has already.
\<close>

theorem addItem_repeated_draw_counterexample:
  "ids_of first_registration ''attendees'' = [Some ''at-1'', Some ''at-k3j9x2a'']
   \<and> js_get (new_item ''at'' ''k3j9x2a''
                [(''name'', ''John Roe''), (''company'', ''Initech''), (''email'', ''john@initech.com''),
                 (''type'', ''Speaker'')]) ''id'' = Some ''at-k3j9x2a''
   \<and> addItem ''attendees''
        (new_item ''at'' ''k3j9x2a''
           [(''name'', ''John Roe''), (''company'', ''Initech''), (''email'', ''john@initech.com''),
            (''type'', ''Speaker'')]) first_registration = Inr second_registration
   \<and> ids_of second_registration ''attendees'' = [Some ''at-1'', Some ''at-k3j9x2a'', Some ''at-k3j9x2a'']"
  by (simp add: first_registration_eq second_registration_eq addItem_def new_item_def uid_def spread_def
      ids_of_def js_get_update) (simp add: js_get_def sampleData_def)

subsection \<open>Loading\<close>

text \<open>
  C4: \<open>loadFromStorage\<close> never raises: for every parser and every storage it returns a
  value. When nothing is stored under the key, and when the stored text fails to parse, the
  value is the sample data (with the exception logged, unless the text is empty and the
  parser is not called); the sample data has 2 exhibitors, 2 booths, 1 event and 1 attendee.
\<close>

theorem loadFromStorage_never_raises:
  "(\<exists>v errs. loadFromStorage parse ls = Inr (v, errs))
   \<and> (ls STORAGE_KEY = None \<longrightarrow> loadFromStorage parse ls = Inr (json_of_aggregate sampleData, []))
   \<and> (\<forall>raw e. ls STORAGE_KEY = Some raw \<and> parse raw = Inl e \<longrightarrow>
          loadFromStorage parse ls = Inr (json_of_aggregate sampleData, if raw = [] then [] else [e]))
   \<and> map (\<lambda>c. map_option length (js_get sampleData c)) collection_names = [Some 2, Some 2, Some 1, Some 1]"
proof (intro conjI allI impI)
  show "\<exists>v errs. loadFromStorage parse ls = Inr (v, errs)"
    by (simp add: loadFromStorage_def split: sum.splits)
  show "loadFromStorage parse ls = Inr (json_of_aggregate sampleData, [])" if "ls STORAGE_KEY = None"
    using that by (simp add: loadFromStorage_def loadFromStorage_try_def)
  show "loadFromStorage parse ls = Inr (json_of_aggregate sampleData, if raw = [] then [] else [e])"
    if "ls STORAGE_KEY = Some raw \<and> parse raw = Inl e" for raw e
    using that by (simp add: loadFromStorage_def loadFromStorage_try_def)
  show "map (\<lambda>c. map_option length (js_get sampleData c)) collection_names = [Some 2, Some 2, Some 1, Some 1]"
    by (simp add: collection_names_def sampleData_def js_get_def)
qed

lemma JSON_parse_unclosed: "JSON_parse ''{'' = Inl SyntaxError"
  by (simp add: JSON_parse_def skip_ws_def is_ws_def)

theorem loadFromStorage_never_raises_witness:
  "[STORAGE_KEY \<mapsto> ''{''] STORAGE_KEY = Some ''{'' \<and> JSON_parse ''{'' = Inl SyntaxError
   \<and> loadFromStorage JSON_parse [STORAGE_KEY \<mapsto> ''{''] = Inr (json_of_aggregate sampleData, [SyntaxError])
   \<and> Map.empty STORAGE_KEY = (None :: string option)
   \<and> loadFromStorage JSON_parse Map.empty = Inr (json_of_aggregate sampleData, [])"
proof -
  have a: "[STORAGE_KEY \<mapsto> ''{''] STORAGE_KEY = Some ''{''"
    by simp
  have b: "Map.empty STORAGE_KEY = (None :: string option)"
    by simp
  from loadFromStorage_never_raises [of JSON_parse "[STORAGE_KEY \<mapsto> ''{'']"]
  have "[STORAGE_KEY \<mapsto> ''{''] STORAGE_KEY = Some ''{'' \<and> JSON_parse ''{'' = Inl SyntaxError \<longrightarrow>
      loadFromStorage JSON_parse [STORAGE_KEY \<mapsto> ''{''] =
        Inr (json_of_aggregate sampleData, if ''{'' = [] then [] else [SyntaxError])"
    by (elim conjE allE)
  with a JSON_parse_unclosed
  have c: "loadFromStorage JSON_parse [STORAGE_KEY \<mapsto> ''{''] = Inr (json_of_aggregate sampleData, [SyntaxError])"
    by simp
  from loadFromStorage_never_raises [of JSON_parse Map.empty] b
  have d: "loadFromStorage JSON_parse Map.empty = Inr (json_of_aggregate sampleData, [])"
    by (elim conjE impE)
  from a JSON_parse_unclosed c b d show ?thesis
    by (intro conjI)
qed

subsection \<open>Filtering\<close>

lemma js_includes_sublist: "js_includes s q \<longleftrightarrow> sublist q s"
proof (induction s)
  case Nil
  then show ?case by auto
next
  case (Cons c cs)
  have "take (length q) (c # cs) = q \<longleftrightarrow> prefix q (c # cs)"
  proof
    assume "take (length q) (c # cs) = q"
    then have "c # cs = q @ drop (length q) (c # cs)"
      using append_take_drop_id [of "length q" "c # cs"] by simp
    then show "prefix q (c # cs)"
      by (rule prefixI)
  next
    assume "prefix q (c # cs)"
    then obtain zs where "c # cs = q @ zs"
      by (rule prefixE)
    then show "take (length q) (c # cs) = q"
      by simp
  qed
  then show ?case
    using Cons.IH by (simp add: sublist_Cons_right)
qed

lemma js_includes_empty: "js_includes s []"
  by (simp add: js_includes_sublist)

lemma toLowerCase_empty: "toLowerCase [] = []"
  by (simp add: toLowerCase_def)

lemma filtered_fields:
  assumes "c \<in> set collection_names" and "js_get d c = Some items"
  shows "filtered c d q =
    Inr (filter (\<lambda>r. js_includes (toLowerCase (joined_fields (searched_fields c) r)) (toLowerCase q)) items)"
proof -
  from assms(1) consider "c = ''exhibitors''" | "c = ''booths''" | "c = ''events''" | "c = ''attendees''"
    unfolding in_collection_names by blast
  then show ?thesis
  proof cases
    case 1
    with assms(2) show ?thesis
      by (simp add: filtered_def searched_fields_def filteredExhibitors_def)
  next
    case 2
    with assms(2) show ?thesis
      by (simp add: filtered_def searched_fields_def filteredBooths_def)
  next
    case 3
    with assms(2) show ?thesis
      by (simp add: filtered_def searched_fields_def filteredEvents_def)
  next
    case 4
    with assms(2) show ?thesis
      by (simp add: filtered_def searched_fields_def filteredAttendees_def)
  qed
qed

lemma joined_fields_texts: "joined_fields fs r = js_join '' '' (field_texts fs r)"
  by (simp add: joined_fields_def field_texts_def)

text \<open>
  C6, as amended: for each of the four collections the view with the empty query is the
  whole collection in its order; for every query, the view consists of the records for which
  the query is, case ignored, a substring of the collection's searched fields joined by
  single spaces (an absent field as the empty text), in the order of the collection.
\<close>

theorem filtered_matches:
  assumes "has_collections d" and "c \<in> set collection_names"
  shows "\<exists>items result. js_get d c = Some items \<and> filtered c d [] = Inr items
           \<and> filtered c d q = Inr result
           \<and> result = filter (\<lambda>r. ci_substring q (js_join '' '' (field_texts (searched_fields c) r))) items
           \<and> (\<forall>r. r \<in> set result \<longleftrightarrow>
                  r \<in> set items \<and> ci_substring q (js_join '' '' (field_texts (searched_fields c) r)))
           \<and> subseq result items"
proof -
  from assms obtain items where items: "js_get d c = Some items"
    by (rule has_collections_get)
  let ?match = "\<lambda>q r. ci_substring q (js_join '' '' (field_texts (searched_fields c) r))"
  have run: "filtered c d q = Inr (filter (?match q) items)" for q
    using filtered_fields [OF assms(2) items, of q]
    by (simp add: js_includes_sublist ci_substring_def joined_fields_texts)
  have "?match [] r" for r
    by (simp add: ci_substring_def toLowerCase_empty)
  then have all: "filtered c d [] = Inr items"
    by (simp add: run)
  have mem: "\<forall>r. r \<in> set (filter (?match q) items) \<longleftrightarrow> r \<in> set items \<and> ?match q r"
    by simp
  have sub: "subseq (filter (?match q) items) items"
    by (rule subseq_filter_left)
  from items all run [of q] mem sub show ?thesis
    by blast
qed

lemma corner_booths:
  "filter (\<lambda>r. ci_substring ''CORNER'' (js_join '' '' (field_texts (searched_fields ''booths'') r)))
     [[(''id'', ''b-A1''), (''code'', ''A1''), (''size'', ''3x3''), (''notes'', ''Near entrance'')],
      [(''id'', ''b-B2''), (''code'', ''B2''), (''size'', ''3x2''), (''notes'', ''Corner'')]]
   = [[(''id'', ''b-B2''), (''code'', ''B2''), (''size'', ''3x2''), (''notes'', ''Corner'')]]"
  by code_simp

theorem filtered_matches_witness:
  "has_collections sampleData \<and> ''booths'' \<in> set collection_names
   \<and> filtered ''booths'' sampleData [] =
        Inr [[(''id'', ''b-A1''), (''code'', ''A1''), (''size'', ''3x3''), (''notes'', ''Near entrance'')],
             [(''id'', ''b-B2''), (''code'', ''B2''), (''size'', ''3x2''), (''notes'', ''Corner'')]]
   \<and> filtered ''booths'' sampleData ''CORNER'' =
        Inr [[(''id'', ''b-B2''), (''code'', ''B2''), (''size'', ''3x2''), (''notes'', ''Corner'')]]"
proof -
  let ?booths = "[[(''id'', ''b-A1''), (''code'', ''A1''), (''size'', ''3x3''), (''notes'', ''Near entrance'')],
                  [(''id'', ''b-B2''), (''code'', ''B2''), (''size'', ''3x2''), (''notes'', ''Corner'')]]"
  have c: "''booths'' \<in> set collection_names"
    by (simp add: collection_names_def)
  have p: "js_get sampleData ''booths'' = Some ?booths"
    by (simp add: sampleData_def js_get_def)
  from filtered_matches [OF has_collections_sampleData c, of "''CORNER''"]
  obtain items result where items: "js_get sampleData ''booths'' = Some items"
    and all: "filtered ''booths'' sampleData [] = Inr items"
    and run: "filtered ''booths'' sampleData ''CORNER'' = Inr result"
    and res: "result = filter (\<lambda>r. ci_substring ''CORNER''
                 (js_join '' '' (field_texts (searched_fields ''booths'') r))) items"
    by (elim exE conjE) (rule that)
  from items p have eq: "items = ?booths"
    by simp
  from res have "result = [[(''id'', ''b-B2''), (''code'', ''B2''), (''size'', ''3x2''), (''notes'', ''Corner'')]]"
    unfolding eq corner_booths .
  with run have r: "filtered ''booths'' sampleData ''CORNER'' =
        Inr [[(''id'', ''b-B2''), (''code'', ''B2''), (''size'', ''3x2''), (''notes'', ''Corner'')]]"
    by simp
  from all have a: "filtered ''booths'' sampleData [] = Inr ?booths"
    unfolding eq .
  from has_collections_sampleData c a r show ?thesis
    by (intro conjI)
qed

text \<open>
  The claim as stated fails: \<open>labinfo\<close> is a substring of the concatenation of the searched
  fields of the first sample exhibitor, whose name ends in \<open>Lab\<close> and whose contact starts
  with \<open>info\<close>, but the view for that query is empty, since the fields are joined by spaces.
\<close>

theorem filtered_concatenation_counterexample:
  "js_get sampleData ''exhibitors'' =
     Some [[(''id'', ''ex-1''), (''name'', ''NanoTech Lab''), (''contact'', ''info@nanotech.example''),
            (''booth'', ''A1''), (''notes'', ''Graphene demos'')],
           [(''id'', ''ex-2''), (''name'', ''Micro Instruments''), (''contact'', ''sales@micro.example''),
            (''booth'', ''B2''), (''notes'', ''AFM & SEM'')]]
   \<and> concat (field_texts (searched_fields ''exhibitors'')
        [(''id'', ''ex-1''), (''name'', ''NanoTech Lab''), (''contact'', ''info@nanotech.example''),
         (''booth'', ''A1''), (''notes'', ''Graphene demos'')])
      = ''NanoTech Labinfo@nanotech.exampleA1Graphene demos''
   \<and> ci_substring ''labinfo'' ''NanoTech Labinfo@nanotech.exampleA1Graphene demos''
   \<and> filtered ''exhibitors'' sampleData ''labinfo'' = Inr []"
  by code_simp

subsection \<open>CSV export\<close>







subsection \<open>Reading back a quoted string\<close>

lemma cons_result_Some: "cons_result c (Some (s, rest)) = Some (c # s, rest)"
  by (simp add: cons_result_def)

lemma hex_val_hex_digit: "k < 16 \<Longrightarrow> hex_val (hex_digit k) = Some k"
  by (auto simp: hex_val_def hex_digit_def Let_def)

lemma hex_val_zero: "hex_val CHR ''0'' = Some 0"
  by (simp add: hex_val_def)

lemma hex4_control:
  assumes "n < 32"
  shows "hex4 CHR ''0'' CHR ''0'' (hex_digit (n div 16)) (hex_digit (n mod 16)) = Some n"
proof -
  from assms have "n div 16 < 16" and "n mod 16 < 16"
    by simp_all
  then show ?thesis
    by (simp add: hex4_def hex_val_zero hex_val_hex_digit)
qed

lemma parse_chars_quote_char:
  "parse_chars (quote_char c @ cs) = cons_result c (parse_chars cs)"
proof -
  consider (special) "c = CHR 0x22 \<or> c = CHR 0x5C \<or> c = CHR 0x08 \<or> c = CHR 0x09 \<or> c = CHR 0x0A
      \<or> c = CHR 0x0C \<or> c = CHR 0x0D"
    | (control) "\<not> (c = CHR 0x22 \<or> c = CHR 0x5C \<or> c = CHR 0x08 \<or> c = CHR 0x09 \<or> c = CHR 0x0A
      \<or> c = CHR 0x0C \<or> c = CHR 0x0D)" "(of_char c :: nat) < 32"
    | (plain) "\<not> (c = CHR 0x22 \<or> c = CHR 0x5C \<or> c = CHR 0x08 \<or> c = CHR 0x09 \<or> c = CHR 0x0A
      \<or> c = CHR 0x0C \<or> c = CHR 0x0D)" "\<not> (of_char c :: nat) < 32"
    by blast
  then show ?thesis
  proof cases
    case special
    then show ?thesis
      by (auto simp: quote_char_def unescape_def)
  next
    case control
    then show ?thesis
      by (simp add: quote_char_def hex4_control)
  next
    case plain
    then show ?thesis
      by (simp add: quote_char_def)
  qed
qed

lemma parse_chars_quoted:
  "parse_chars (concat (map quote_char s) @ CHR 0x22 # rest) = Some (s, rest)"
  by (induction s) (simp_all add: parse_chars_quote_char cons_result_Some)

subsection \<open>Reading back a value\<close>

lemma skip_ws_Cons: "\<not> is_ws c \<Longrightarrow> skip_ws (c # cs) = c # cs"
  by (simp add: skip_ws_def)

lemma opens_value_not_ws: "opens_value c \<Longrightarrow> \<not> is_ws c"
  by (auto simp: opens_value_def is_ws_def)

lemma js_join_Cons_opens:
  assumes "\<And>x. x \<in> set xs \<Longrightarrow> \<exists>c cs. f x = c # cs \<and> opens_value c" and "xs \<noteq> []"
  shows "\<exists>c cs. js_join sep (map f xs) = c # cs \<and> opens_value c"
proof (cases xs)
  case Nil
  with assms(2) show ?thesis by simp
next
  case (Cons x ys)
  with assms(1) [of x] obtain c cs where x: "f x = c # cs" "opens_value c"
    by auto
  show ?thesis
    using x Cons by (cases ys) auto
qed

lemma stringify_opens: "\<exists>c cs. JSON_stringify v = c # cs \<and> opens_value c"
  by (cases v) (simp_all add: opens_value_def quote_json_def)

lemma parse_value_string:
  "parse_value (Suc n) (CHR 0x22 # r) =
     (case parse_chars r of None \<Rightarrow> None | Some (s, rest) \<Rightarrow> Some (JStr s, rest))"
  by (simp add: skip_ws_def is_ws_def)

lemma parse_value_array_empty: "parse_value (Suc n) (CHR ''['' # CHR '']'' # r) = Some (JArr [], r)"
  by (simp add: skip_ws_def is_ws_def)

lemma parse_value_array:
  assumes "opens_value c"
  shows "parse_value (Suc n) (CHR ''['' # c # r) =
     (case parse_elems n (c # r) of None \<Rightarrow> None | Some (vs, rest) \<Rightarrow> Some (JArr vs, rest))"
proof -
  from assms have "c \<noteq> CHR '']''" and "\<not> is_ws c"
    by (auto simp: opens_value_def is_ws_def)
  then show ?thesis
    by (simp add: skip_ws_def is_ws_def)
qed

lemma parse_value_object_empty: "parse_value (Suc n) (CHR ''{'' # CHR ''}'' # r) = Some (JObj [], r)"
  by (simp add: skip_ws_def is_ws_def)

lemma parse_value_object:
  "parse_value (Suc n) (CHR ''{'' # CHR 0x22 # r) =
     (case parse_members n (CHR 0x22 # r) of
        None \<Rightarrow> None
      | Some (ms, rest) \<Rightarrow> Some (JObj (spread [] ms), rest))"
  by (simp add: skip_ws_def is_ws_def)

lemma parse_elems_last:
  assumes "parse_value n cs = Some (v, CHR '']'' # r)"
  shows "parse_elems (Suc n) cs = Some ([v], r)"
  using assms by (simp add: skip_ws_def is_ws_def)

lemma parse_elems_more:
  assumes "parse_value n cs = Some (v, CHR '','' # r)" and "parse_elems n r = Some (vs, rest)"
  shows "parse_elems (Suc n) cs = Some (v # vs, rest)"
  using assms by (simp add: skip_ws_def is_ws_def)

lemma parse_members_last:
  assumes "parse_value n cs = Some (v, CHR ''}'' # r)"
  shows "parse_members (Suc n) (quote_json k @ CHR '':'' # cs) = Some ([(k, v)], r)"
  using assms by (simp add: quote_json_def parse_chars_quoted skip_ws_def is_ws_def)

lemma parse_members_more:
  assumes "parse_value n cs = Some (v, CHR '','' # r)" and "parse_members n r = Some (ms, rest)"
  shows "parse_members (Suc n) (quote_json k @ CHR '':'' # cs) = Some ((k, v) # ms, rest)"
  using assms by (simp add: quote_json_def parse_chars_quoted skip_ws_def is_ws_def)

lemma elems_roundtrip:
  assumes "\<And>v n rest. v \<in> set vs \<Longrightarrow> fuel v \<le> n \<Longrightarrow>
             parse_value n (JSON_stringify v @ rest) = Some (v, rest)"
    and "vs \<noteq> []" and "sum_list (map (\<lambda>v. 1 + fuel v) vs) \<le> n"
  shows "parse_elems n (js_join '','' (map JSON_stringify vs) @ CHR '']'' # rest) = Some (vs, rest)"
  using assms
proof (induction vs arbitrary: n)
  case Nil
  then show ?case by simp
next
  case (Cons v vs)
  from Cons.prems(3) obtain m where n: "n = Suc m" and v: "fuel v \<le> m"
    and rest_fuel: "sum_list (map (\<lambda>v. 1 + fuel v) vs) \<le> m"
    by (cases n) auto
  have val: "parse_value m (JSON_stringify v @ r) = Some (v, r)" for r
    using v by (intro Cons.prems(1)) simp_all
  show ?case
  proof (cases vs)
    case Nil
    have "parse_elems (Suc m) (JSON_stringify v @ CHR '']'' # rest) = Some ([v], rest)"
      by (rule parse_elems_last) (rule val)
    then show ?thesis
      by (simp add: n Nil)
  next
    case (Cons w ws)
    have "parse_elems m (js_join '','' (map JSON_stringify vs) @ CHR '']'' # rest) = Some (vs, rest)"
      using rest_fuel by (intro Cons.IH Cons.prems(1)) (simp_all add: Cons)
    then have "parse_elems (Suc m)
        (JSON_stringify v @ CHR '','' # js_join '','' (map JSON_stringify vs) @ CHR '']'' # rest)
        = Some (v # vs, rest)"
      by (rule parse_elems_more [OF val])
    then show ?thesis
      by (simp add: n Cons)
  qed
qed

lemma members_roundtrip:
  assumes "\<And>k v n rest. (k, v) \<in> set ps \<Longrightarrow> fuel v \<le> n \<Longrightarrow>
             parse_value n (JSON_stringify v @ rest) = Some (v, rest)"
    and "ps \<noteq> []" and "sum_list (map (\<lambda>(k, v). 1 + fuel v) ps) \<le> n"
  shows "parse_members n
           (js_join '','' (map (\<lambda>(k, v). quote_json k @ '':'' @ JSON_stringify v) ps) @ CHR ''}'' # rest)
         = Some (ps, rest)"
  using assms
proof (induction ps arbitrary: n)
  case Nil
  then show ?case by simp
next
  case (Cons p ps)
  obtain k v where p: "p = (k, v)"
    by (cases p)
  from Cons.prems(3) obtain m where n: "n = Suc m" and v: "fuel v \<le> m"
    and rest_fuel: "sum_list (map (\<lambda>(k, v). 1 + fuel v) ps) \<le> m"
    by (cases n) (auto simp: p)
  have val: "parse_value m (JSON_stringify v @ r) = Some (v, r)" for r
    using v by (intro Cons.prems(1) [of k]) (simp_all add: p)
  show ?case
  proof (cases ps)
    case Nil
    have "parse_members (Suc m) (quote_json k @ CHR '':'' # JSON_stringify v @ CHR ''}'' # rest)
        = Some ([(k, v)], rest)"
      by (rule parse_members_last) (rule val)
    then show ?thesis
      by (simp add: n Nil p)
  next
    case (Cons q qs)
    have "parse_members m
        (js_join '','' (map (\<lambda>(k, v). quote_json k @ '':'' @ JSON_stringify v) ps) @ CHR ''}'' # rest)
        = Some (ps, rest)"
    proof (rule Cons.IH)
      show "parse_value n' (JSON_stringify v' @ r) = Some (v', r)"
        if "(k', v') \<in> set ps" and "fuel v' \<le> n'" for k' v' n' r
        using Cons.prems(1) [of k' v' n' r] that by simp
      show "ps \<noteq> []"
        by (simp add: Cons)
      show "sum_list (map (\<lambda>(k, v). 1 + fuel v) ps) \<le> m"
        by (rule rest_fuel)
    qed
    then have "parse_members (Suc m)
        (quote_json k @ CHR '':'' # JSON_stringify v @ CHR '','' #
           js_join '','' (map (\<lambda>(k, v). quote_json k @ '':'' @ JSON_stringify v) ps) @ CHR ''}'' # rest)
        = Some ((k, v) # ps, rest)"
      by (rule parse_members_more [OF val])
    then show ?thesis
      by (simp add: n Cons p)
  qed
qed

lemma parse_value_stringify:
  "wf_json v \<Longrightarrow> fuel v \<le> n \<Longrightarrow> parse_value n (JSON_stringify v @ rest) = Some (v, rest)"
proof (induction v arbitrary: n rest)
  case (JStr s)
  then obtain m where n: "n = Suc m"
    by (cases n) auto
  show ?case
    by (simp add: n quote_json_def parse_value_string parse_chars_quoted del: parse_value.simps)
next
  case (JArr vs)
  from JArr.prems(2) obtain m where n: "n = Suc m"
    and elems_fuel: "sum_list (map (\<lambda>v. 1 + fuel v) vs) \<le> m"
    by (cases n) auto
  show ?case
  proof (cases "vs = []")
    case True
    then show ?thesis
      by (simp add: n parse_value_array_empty del: parse_value.simps)
  next
    case False
    have elems: "parse_elems m (js_join '','' (map JSON_stringify vs) @ CHR '']'' # rest) = Some (vs, rest)"
    proof (rule elems_roundtrip)
      show "parse_value n' (JSON_stringify v @ r) = Some (v, r)"
        if "v \<in> set vs" and "fuel v \<le> n'" for v n' r
        using that JArr.prems(1) by (intro JArr.IH) (simp_all add: list_all_iff)
      show "vs \<noteq> []"
        by (rule False)
      show "sum_list (map (\<lambda>v. 1 + fuel v) vs) \<le> m"
        by (rule elems_fuel)
    qed
    from False obtain c cs where start: "js_join '','' (map JSON_stringify vs) = c # cs" "opens_value c"
      using js_join_Cons_opens [of vs JSON_stringify "'',''"] stringify_opens by blast
    from elems have "parse_elems m (c # cs @ CHR '']'' # rest) = Some (vs, rest)"
      unfolding start(1) by simp
    then have "parse_value (Suc m) (CHR ''['' # c # cs @ CHR '']'' # rest) = Some (JArr vs, rest)"
      by (simp add: parse_value_array [OF start(2)] del: parse_value.simps)
    then show ?thesis
      by (simp add: n start(1) del: parse_value.simps)
  qed
next
  case (JObj ps)
  from JObj.prems(2) obtain m where n: "n = Suc m"
    and members_fuel: "sum_list (map (\<lambda>(k, v). 1 + fuel v) ps) \<le> m"
    by (cases n) auto
  from JObj.prems(1) have keys: "distinct (map fst ps)"
    by simp
  show ?case
  proof (cases "ps = []")
    case True
    then show ?thesis
      by (simp add: n parse_value_object_empty del: parse_value.simps)
  next
    case False
    let ?text = "js_join '','' (map (\<lambda>(k, v). quote_json k @ '':'' @ JSON_stringify v) ps)"
    have members: "parse_members m (?text @ CHR ''}'' # rest) = Some (ps, rest)"
    proof (rule members_roundtrip)
      show "parse_value n' (JSON_stringify v @ r) = Some (v, r)"
        if "(k, v) \<in> set ps" and "fuel v \<le> n'" for k v n' r
      proof (rule JObj.IH)
        show "(k, v) \<in> set ps" by (rule that(1))
        show "v \<in> Basic_BNFs.snds (k, v)" by simp
        show "wf_json v"
          using JObj.prems(1) that(1) by (auto simp: list_all_iff)
        show "fuel v \<le> n'" by (rule that(2))
      qed
      show "ps \<noteq> []"
        by (rule False)
      show "sum_list (map (\<lambda>(k, v). 1 + fuel v) ps) \<le> m"
        by (rule members_fuel)
    qed
    from False obtain p qs where ps: "ps = p # qs"
      by (cases ps) auto
    obtain k v where p: "p = (k, v)"
      by (cases p)
    have "\<exists>cs. ?text = CHR 0x22 # cs"
      by (cases qs) (simp_all add: ps p quote_json_def)
    then obtain cs where start: "?text = CHR 0x22 # cs"
      by blast
    from members have "parse_members m (CHR 0x22 # cs @ CHR ''}'' # rest) = Some (ps, rest)"
      unfolding start by simp
    then have "parse_value (Suc m) (CHR ''{'' # CHR 0x22 # cs @ CHR ''}'' # rest) = Some (JObj ps, rest)"
      by (simp add: parse_value_object spread_Nil [OF keys] del: parse_value.simps)
    moreover have "JSON_stringify (JObj ps) @ rest = CHR ''{'' # CHR 0x22 # cs @ CHR ''}'' # rest"
      unfolding JSON_stringify.simps start by simp
    ultimately show ?thesis
      unfolding n by (simp only:)
  qed
qed

lemma sum_fuel_le_join:
  assumes "\<And>x. x \<in> set xs \<Longrightarrow> f x \<le> length (g x)"
  shows "sum_list (map (\<lambda>x. 1 + f x) xs) \<le> 1 + length (js_join '','' (map g xs))"
  using assms
proof (induction xs)
  case Nil
  then show ?case by simp
next
  case (Cons x xs)
  have "f x \<le> length (g x)"
    by (rule Cons.prems) simp
  moreover have "sum_list (map (\<lambda>x. 1 + f x) xs) \<le> 1 + length (js_join '','' (map g xs))"
    by (rule Cons.IH) (simp add: Cons.prems)
  ultimately show ?case
    by (cases xs) simp_all
qed

lemma fuel_le_length: "fuel v \<le> length (JSON_stringify v)"
proof (induction v)
  case (JStr s)
  show ?case
    by (simp add: quote_json_def)
next
  case (JArr vs)
  have "sum_list (map (\<lambda>v. 1 + fuel v) vs) \<le> 1 + length (js_join '','' (map JSON_stringify vs))"
    by (rule sum_fuel_le_join) (rule JArr.IH)
  then show ?case
    by simp
next
  case (JObj ps)
  have "sum_list (map (\<lambda>p. 1 + fuel (snd p)) ps)
      \<le> 1 + length (js_join '','' (map (\<lambda>p. quote_json (fst p) @ '':'' @ JSON_stringify (snd p)) ps))"
  proof (rule sum_fuel_le_join)
    fix p
    assume "p \<in> set ps"
    moreover have "snd p \<in> Basic_BNFs.snds p"
      by (cases p) simp
    ultimately have "fuel (snd p) \<le> length (JSON_stringify (snd p))"
      by (rule JObj.IH)
    then show "fuel (snd p) \<le> length (quote_json (fst p) @ '':'' @ JSON_stringify (snd p))"
      by simp
  qed
  then show ?case
    by (simp add: case_prod_unfold)
qed

lemma JSON_parse_stringify:
  assumes "wf_json v"
  shows "JSON_parse (JSON_stringify v) = Inr v"
proof -
  have "parse_value (length (JSON_stringify v)) (JSON_stringify v @ []) = Some (v, [])"
    using assms fuel_le_length by (rule parse_value_stringify)
  then show ?thesis
    by (simp add: JSON_parse_def skip_ws_def)
qed

lemma stringify_not_empty: "JSON_stringify v \<noteq> []"
  using stringify_opens [of v] by auto

lemma wf_json_of_aggregate: "well_formed d \<Longrightarrow> wf_json (json_of_aggregate d)"
  by (auto simp: well_formed_def json_of_aggregate_def json_of_collection_def json_of_record_def
      list_all_iff comp_def case_prod_unfold)

lemma json_of_record_eq: "json_of_record r = json_of_record r' \<longleftrightarrow> r = r'"
proof -
  have "inj (\<lambda>(k, v). (k, JStr v))"
    by (auto simp: inj_def)
  then have "map (\<lambda>(k, v). (k, JStr v)) r = map (\<lambda>(k, v). (k, JStr v)) r' \<longleftrightarrow> r = r'"
    by (rule inj_map_eq_map)
  then show ?thesis
    by (simp add: json_of_record_def)
qed

lemma json_of_collection_eq: "json_of_collection items = json_of_collection items' \<longleftrightarrow> items = items'"
proof -
  have "inj json_of_record"
    by (simp add: inj_def json_of_record_eq)
  then have "map json_of_record items = map json_of_record items' \<longleftrightarrow> items = items'"
    by (rule inj_map_eq_map)
  then show ?thesis
    by (simp add: json_of_collection_def)
qed

lemma json_of_aggregate_eq: "json_of_aggregate d = json_of_aggregate d' \<longleftrightarrow> d = d'"
proof -
  have "inj (\<lambda>(k, items). (k, json_of_collection items))"
    by (auto simp: inj_def json_of_collection_eq)
  then have "map (\<lambda>(k, items). (k, json_of_collection items)) d =
      map (\<lambda>(k, items). (k, json_of_collection items)) d' \<longleftrightarrow> d = d'"
    by (rule inj_map_eq_map)
  then show ?thesis
    by (simp add: json_of_aggregate_def)
qed

lemma well_formed_sampleData: "well_formed sampleData"
  by (simp add: well_formed_def sampleData_def)

subsection \<open>Saving and loading\<close>

text \<open>
  C5: for every well-formed aggregate and every storage, \<open>saveToStorage\<close> followed by
  \<open>loadFromStorage\<close> returns the value that was saved, with nothing logged; and two
  aggregates are the same value only when they are equal.
\<close>

theorem save_load_roundtrip:
  assumes "well_formed d"
  shows "loadFromStorage JSON_parse (saveToStorage (json_of_aggregate d) ls) = Inr (json_of_aggregate d, [])
       \<and> (\<forall>d'. json_of_aggregate d' = json_of_aggregate d \<longleftrightarrow> d' = d)"
proof -
  have "JSON_parse (JSON_stringify (json_of_aggregate d)) = Inr (json_of_aggregate d)"
    using assms by (intro JSON_parse_stringify wf_json_of_aggregate)
  then show ?thesis
    by (simp add: loadFromStorage_def loadFromStorage_try_def saveToStorage_def stringify_not_empty
        json_of_aggregate_eq)
qed

theorem save_load_roundtrip_witness:
  "well_formed sampleData
   \<and> loadFromStorage JSON_parse (saveToStorage (json_of_aggregate sampleData) Map.empty)
       = Inr (json_of_aggregate sampleData, [])"
  using save_load_roundtrip [OF well_formed_sampleData, of Map.empty] well_formed_sampleData
  by simp

end
